theory Spec2Isabelle
  imports Main "HOL-Library.Word"
begin

unbundle bit_operations_syntax

section \<open>Installation code decoding (install_code.py)\<close>

text \<open>
  The module is Python 2: a \<open>str\<close> is a sequence of 8-bit characters, so both the
  text handed to \<open>decode\<close> and the binary strings it builds are modelled as
  \<^typ>\<open>string\<close> (\<^typ>\<open>char\<close> is a byte; \<open>ord\<close> is \<^const>\<open>of_char\<close>).
  Python integers are unbounded and are modelled as \<^typ>\<open>int\<close>.
  Every exception the code can raise is a value of \<open>error\<close>.
\<close>

subsection \<open>Errors\<close>

datatype error =
    InvalidLength          \<comment> \<open>\<open>Exception("install string not 48, 64, 96, or 128 bit")\<close>\<close>
  | InvalidHex             \<comment> \<open>\<open>TypeError\<close> raised by \<open>binascii.a2b_hex\<close>\<close>
  | ChecksumMismatch int int  \<comment> \<open>\<open>Exception("CRC error ... given = %04X, calc = %04X")\<close>\<close>
  | IndexError             \<comment> \<open>tuple or string index out of range\<close>
  | StructError            \<comment> \<open>\<open>struct.error\<close> of \<open>pack\<close> and \<open>unpack\<close>\<close>
  | ValueError             \<comment> \<open>\<open>chr\<close> of a value outside \<open>range(256)\<close>\<close>
  | CipherError            \<comment> \<open>any exception raised inside the \<open>rijndael\<close> module\<close>

subsection \<open>The CRC table\<close>

definition crc_table :: "int list" where
  "crc_table = [
   0, 4489, 8978, 12955, 17956, 22445, 25910, 29887,
   35912, 40385, 44890, 48851, 51820, 56293, 59774, 63735,
   4225, 264, 13203, 8730, 22181, 18220, 30135, 25662,
   40137, 36160, 49115, 44626, 56045, 52068, 63999, 59510,
   8450, 12427, 528, 5017, 26406, 30383, 17460, 21949,
   44362, 48323, 36440, 40913, 60270, 64231, 51324, 55797,
   12675, 8202, 4753, 792, 30631, 26158, 21685, 17724,
   48587, 44098, 40665, 36688, 64495, 60006, 55549, 51572,
   16900, 21389, 24854, 28831, 1056, 5545, 10034, 14011,
   52812, 57285, 60766, 64727, 34920, 39393, 43898, 47859,
   21125, 17164, 29079, 24606, 5281, 1320, 14259, 9786,
   57037, 53060, 64991, 60502, 39145, 35168, 48123, 43634,
   25350, 29327, 16404, 20893, 9506, 13483, 1584, 6073,
   61262, 65223, 52316, 56789, 43370, 47331, 35448, 39921,
   29575, 25102, 20629, 16668, 13731, 9258, 5809, 1848,
   65487, 60998, 56541, 52564, 47595, 43106, 39673, 35696,
   33800, 38273, 42778, 46739, 49708, 54181, 57662, 61623,
   2112, 6601, 11090, 15067, 20068, 24557, 28022, 31999,
   38025, 34048, 47003, 42514, 53933, 49956, 61887, 57398,
   6337, 2376, 15315, 10842, 24293, 20332, 32247, 27774,
   42250, 46211, 34328, 38801, 58158, 62119, 49212, 53685,
   10562, 14539, 2640, 7129, 28518, 32495, 19572, 24061,
   46475, 41986, 38553, 34576, 62383, 57894, 53437, 49460,
   14787, 10314, 6865, 2904, 32743, 28270, 23797, 19836,
   50700, 55173, 58654, 62615, 32808, 37281, 41786, 45747,
   19012, 23501, 26966, 30943, 3168, 7657, 12146, 16123,
   54925, 50948, 62879, 58390, 37033, 33056, 46011, 41522,
   23237, 19276, 31191, 26718, 7393, 3432, 16371, 11898,
   59150, 63111, 50204, 54677, 41258, 45219, 33336, 37809,
   27462, 31439, 18516, 23005, 11618, 15595, 3696, 8185,
   63375, 58886, 54429, 50452, 45483, 40994, 37561, 33584,
   31687, 27214, 22741, 18780, 15843, 11370, 7921, 3960]"

subsection \<open>Python primitives used by the module\<close>

text \<open>\<open>t[i]\<close> on a tuple: a negative index counts from the end, an index out of
  range raises.\<close>

definition tuple_get :: "int list \<Rightarrow> int \<Rightarrow> error + int" where
  "tuple_get t i =
     (if 0 \<le> i \<and> i < int (length t) then Inr (t ! nat i)
      else if - int (length t) \<le> i \<and> i < 0 then Inr (t ! nat (int (length t) + i))
      else Inl IndexError)"

text \<open>\<open>chr(n)\<close> raises outside \<open>range(256)\<close>.\<close>

definition py_chr :: "int \<Rightarrow> error + char" where
  "py_chr n = (if 0 \<le> n \<and> n < 256 then Inr (char_of n) else Inl ValueError)"

text \<open>\<open>str.upper()\<close> on a byte string: the letters a to z are mapped to A to Z.\<close>

definition upper_char :: "char \<Rightarrow> char" where
  "upper_char c =
     (let n = (of_char c :: nat) in if 97 \<le> n \<and> n \<le> 122 then char_of (n - 32) else c)"

definition upper :: "string \<Rightarrow> string" where
  "upper s = map upper_char s"

text \<open>\<open>struct.pack("<H", n)\<close>, \<open>struct.pack(">H", n)\<close> and
  \<open>struct.unpack(">H", s)[0]\<close>.\<close>

definition pack_le_H :: "int \<Rightarrow> error + string" where
  "pack_le_H n =
     (if 0 \<le> n \<and> n \<le> 65535 then Inr [char_of (n mod 256), char_of (n div 256)]
      else Inl StructError)"

definition pack_be_H :: "int \<Rightarrow> error + string" where
  "pack_be_H n =
     (if 0 \<le> n \<and> n \<le> 65535 then Inr [char_of (n div 256), char_of (n mod 256)]
      else Inl StructError)"

definition unpack_be_H :: "string \<Rightarrow> error + int" where
  "unpack_be_H s =
     (case s of [a, b] \<Rightarrow> Inr (of_char a * 256 + of_char b) | _ \<Rightarrow> Inl StructError)"

text \<open>\<open>binascii.a2b_hex\<close>: two hexadecimal digits (either case) per byte; an odd
  number of digits or a character that is no digit raises \<open>TypeError\<close>.\<close>

definition hex_digit_value :: "char \<Rightarrow> int option" where
  "hex_digit_value c =
     (let n = (of_char c :: int) in
      if 48 \<le> n \<and> n \<le> 57 then Some (n - 48)
      else if 65 \<le> n \<and> n \<le> 70 then Some (n - 55)
      else if 97 \<le> n \<and> n \<le> 102 then Some (n - 87)
      else None)"

fun a2b_hex :: "string \<Rightarrow> error + string" where
  "a2b_hex [] = Inr []"
| "a2b_hex [c] = Inl InvalidHex"
| "a2b_hex (hi # lo # rest) =
     (case (hex_digit_value hi, hex_digit_value lo) of
        (Some h, Some l) \<Rightarrow>
          (case a2b_hex rest of
             Inl err \<Rightarrow> Inl err
           | Inr bs \<Rightarrow> Inr (char_of (16 * h + l) # bs))
      | _ \<Rightarrow> Inl InvalidHex)"

subsection \<open>The cipher dependency\<close>

text \<open>
  \<open>rijndael.rijndael(key).encrypt(block)\<close> belongs to another package. It is a
  parameter of the model: a function from key and block to the ciphertext, or
  \<open>None\<close> where the package raises.
\<close>

type_synonym cipher = "string \<Rightarrow> string \<Rightarrow> string option"

subsection \<open>\<open>e\<close>\<close>

text \<open>The loop \<open>for i in range(0, n): hash += chr(ord(aes_m[i]) ^ ord(m[i]))\<close>.\<close>

fun e_loop :: "string \<Rightarrow> string \<Rightarrow> nat list \<Rightarrow> string \<Rightarrow> error + string" where
  "e_loop aes_m m [] hash = Inr hash"
| "e_loop aes_m m (i # js) hash =
     (if i < length aes_m \<and> i < length m then
        (case py_chr (of_char (aes_m ! i) XOR of_char (m ! i)) of
           Inl err \<Rightarrow> Inl err
         | Inr c \<Rightarrow> e_loop aes_m m js (hash @ [c]))
      else Inl IndexError)"

definition e :: "cipher \<Rightarrow> string \<Rightarrow> string \<Rightarrow> error + string" where
  "e enc hash m =
     (let n = length hash in
      case enc hash m of
        None \<Rightarrow> Inl CipherError
      | Some aes_m \<Rightarrow> e_loop aes_m m [0..<n] [])"

subsection \<open>\<open>decode\<close>\<close>

definition hex_chars :: string where
  "hex_chars = ''0123456789ABCDEF''"

definition SECURITY_BLOCK_SIZE :: nat where
  "SECURITY_BLOCK_SIZE = 16"

text \<open>Lines 28 to 31: upper case, then keep the characters of \<open>hex_chars\<close>.\<close>

definition hex_string :: "string \<Rightarrow> string" where
  "hex_string install_string = filter (\<lambda>ch. ch \<in> set hex_chars) (upper install_string)"

text \<open>Line 33.\<close>

definition install_length :: "string \<Rightarrow> int" where
  "install_length install_string = (int (length (hex_string install_string)) - 4) * 4"

text \<open>Lines 33 to 40: the length check and the conversion to binary.\<close>

definition install_code :: "string \<Rightarrow> error + string" where
  "install_code install_string =
     (let l = install_length install_string in
      if l \<noteq> 48 \<and> l \<noteq> 64 \<and> l \<noteq> 96 \<and> l \<noteq> 128 then Inl InvalidLength
      else a2b_hex (hex_string install_string))"

text \<open>Lines 46 to 48: the CRC loop over \<open>install_code[:-2]\<close>.\<close>

fun crc_loop :: "int \<Rightarrow> string \<Rightarrow> error + int" where
  "crc_loop crc [] = Inr crc"
| "crc_loop crc (x # xs) =
     (case tuple_get crc_table (of_char x XOR (crc AND 0xFF)) of
        Inl err \<Rightarrow> Inl err
      | Inr t \<Rightarrow> crc_loop (t XOR drop_bit 8 crc) xs)"

text \<open>Lines 41 to 51: \<open>given_crc\<close> is \<open>install_code[-2:]\<close>, the loop runs over
  \<open>install_code[:-2]\<close> (the bytes in front of the checksum), \<open>calc_crc\<close> is the
  packed result, and the two are compared.\<close>

definition given_crc :: "string \<Rightarrow> string" where
  "given_crc code = drop (length code - 2) code"

definition decoded_bytes :: "string \<Rightarrow> string" where
  "decoded_bytes code = take (length code - 2) code"

definition calc_crc :: "string \<Rightarrow> error + string" where
  "calc_crc code =
     (case crc_loop 0xFFFF (decoded_bytes code) of
        Inl err \<Rightarrow> Inl err
      | Inr crc \<Rightarrow> pack_le_H (crc XOR 0xFFFF))"

definition verify_crc :: "string \<Rightarrow> error + unit" where
  "verify_crc code =
     (case calc_crc code of
        Inl err \<Rightarrow> Inl err
      | Inr calc \<Rightarrow>
          if given_crc code \<noteq> calc then
            (case unpack_be_H (given_crc code) of
               Inl err \<Rightarrow> Inl err
             | Inr g \<Rightarrow>
                 (case unpack_be_H calc of
                    Inl err \<Rightarrow> Inl err
                  | Inr c \<Rightarrow> Inl (ChecksumMismatch g c)))
          else Inr ())"

text \<open>Lines 54 and 55: the padding. The right-hand side is evaluated before the
  assignment, so both lengths are those of the unpadded \<open>install_code\<close>.\<close>

definition pad :: "string \<Rightarrow> error + string" where
  "pad code =
     (let k = (- (int (length code) + 3)) mod int SECURITY_BLOCK_SIZE in
      case pack_be_H (int (length code) * 8) of
        Inl err \<Rightarrow> Inl err
      | Inr len \<Rightarrow> Inr (code @ [CHR 0x80] @ replicate (nat k) (CHR 0x00) @ len))"

text \<open>Lines 56 to 58: \<open>for i in range(0, len(install_code), SECURITY_BLOCK_SIZE)\<close>.\<close>

function hash_loop :: "cipher \<Rightarrow> string \<Rightarrow> nat \<Rightarrow> string \<Rightarrow> error + string" where
  "hash_loop enc msg i hash =
     (if i < length msg then
        (case e enc hash (take SECURITY_BLOCK_SIZE (drop i msg)) of
           Inl err \<Rightarrow> Inl err
         | Inr h \<Rightarrow> hash_loop enc msg (i + SECURITY_BLOCK_SIZE) h)
      else Inr hash)"
  by pat_completeness auto
termination
  by (relation "measure (\<lambda>(enc, msg, i, hash). length msg - i)")
     (auto simp: SECURITY_BLOCK_SIZE_def)

declare hash_loop.simps [simp del]

text \<open>The message handed to the compression loop (lines 28 to 55).\<close>

definition padded_message :: "string \<Rightarrow> error + string" where
  "padded_message install_string =
     (case install_code install_string of
        Inl err \<Rightarrow> Inl err
      | Inr code \<Rightarrow>
          (case verify_crc code of
             Inl err \<Rightarrow> Inl err
           | Inr _ \<Rightarrow> pad code))"

definition decode :: "cipher \<Rightarrow> string \<Rightarrow> error + string" where
  "decode enc install_string =
     (case padded_message install_string of
        Inl err \<Rightarrow> Inl err
      | Inr msg \<Rightarrow> hash_loop enc msg 0 (replicate SECURITY_BLOCK_SIZE (CHR 0x00)))"

section \<open>Notions of the specification\<close>

text \<open>The length check of lines 35 and 36 as a predicate.\<close>

definition length_ok :: "string \<Rightarrow> bool" where
  "length_ok s \<longleftrightarrow> install_length s \<in> {48, 64, 96, 128}"

text \<open>The surviving hexadecimal digits as the specification words them: drop every
  character that is no hexadecimal digit of either case, then fold the case.\<close>

definition is_hex_digit :: "char \<Rightarrow> bool" where
  "is_hex_digit c \<longleftrightarrow> c \<in> set ''0123456789abcdefABCDEF''"

definition surviving_hex_digits :: "string \<Rightarrow> string" where
  "surviving_hex_digits s = upper (filter is_hex_digit s)"

text \<open>The checksum as the specification words it: one table step per byte from
  register \<open>0xFFFF\<close>, a final XOR with \<open>0xFFFF\<close>, low byte first. No index
  check and no range check appear here.\<close>

definition crc_step :: "int \<Rightarrow> char \<Rightarrow> int" where
  "crc_step crc x = (crc_table ! nat (of_char x XOR (crc AND 0xFF))) XOR drop_bit 8 crc"

definition crc16_bytes :: "string \<Rightarrow> string" where
  "crc16_bytes d =
     (let v = foldl crc_step 0xFFFF d XOR 0xFFFF
      in [char_of (v mod 256), char_of (v div 256)])"

text \<open>The CRC computed bit by bit from the polynomial \<open>0x8408\<close>: shift right by
  one and XOR the polynomial in when the bit shifted out is 1, eight times.\<close>

definition crc_bit_step :: "int \<Rightarrow> int" where
  "crc_bit_step c = (if c AND 1 = 1 then drop_bit 1 c XOR 0x8408 else drop_bit 1 c)"

definition crc_table_entry :: "int \<Rightarrow> int" where
  "crc_table_entry i = (crc_bit_step ^^ 8) i"

definition crc_bitwise_update :: "int \<Rightarrow> char \<Rightarrow> int" where
  "crc_bitwise_update crc x = (crc_bit_step ^^ 8) (crc XOR of_char x)"

text \<open>\<open>table_from i vs\<close>: the values \<open>vs\<close> are the generated entries for the
  indices \<open>i\<close>, \<open>i + 1\<close>, ...\<close>

fun table_from :: "int \<Rightarrow> int list \<Rightarrow> bool" where
  "table_from i [] = True"
| "table_from i (v # vs) = (crc_table_entry i = v \<and> table_from (i + 1) vs)"

text \<open>The padded message as the specification words it, built from the bytes in
  front of the checksum.\<close>

definition spec_padded_message :: "string \<Rightarrow> string" where
  "spec_padded_message d =
     d @ [CHR 0x80] @ replicate (nat ((- (int (length d) + 3)) mod 16)) (CHR 0x00)
       @ [char_of (int (length d) * 8 div 256), char_of (int (length d) * 8 mod 256)]"

text \<open>The Matyas-Meyer-Oseas construction over a total single-block encryption
  \<open>E key block\<close>: the message is cut into 16-byte blocks, the chaining state starts
  as 16 zero bytes, and each block \<open>m\<close> replaces the state by \<open>E state m XOR m\<close>.\<close>

definition xor_bytes :: "string \<Rightarrow> string \<Rightarrow> string" where
  "xor_bytes a b = map2 (\<lambda>x y. char_of ((of_char x :: int) XOR of_char y)) a b"

definition blocks :: "string \<Rightarrow> string list" where
  "blocks msg = map (\<lambda>j. take 16 (drop (j * 16) msg)) [0..<length msg div 16]"

definition mmo_step :: "(string \<Rightarrow> string \<Rightarrow> string) \<Rightarrow> string \<Rightarrow> string \<Rightarrow> string" where
  "mmo_step E state m = xor_bytes (E state m) m"

definition mmo :: "(string \<Rightarrow> string \<Rightarrow> string) \<Rightarrow> string \<Rightarrow> string" where
  "mmo E msg = foldl (mmo_step E) (replicate 16 (CHR 0x00)) (blocks msg)"

text \<open>The contract of the cipher dependency: on a 16-byte key and a 16-byte block it
  does not raise and returns 16 bytes (\<open>cipher_ok\<close>), namely \<open>E key block\<close>
  (\<open>implements\<close>).\<close>

definition implements :: "cipher \<Rightarrow> (string \<Rightarrow> string \<Rightarrow> string) \<Rightarrow> bool" where
  "implements enc E \<longleftrightarrow>
     (\<forall>key block. length key = 16 \<and> length block = 16 \<longrightarrow>
        enc key block = Some (E key block) \<and> length (E key block) = 16)"

definition cipher_ok :: "cipher \<Rightarrow> bool" where
  "cipher_ok enc \<longleftrightarrow>
     (\<forall>key block. length key = 16 \<and> length block = 16 \<longrightarrow>
        (\<exists>c. enc key block = Some c \<and> length c = 16))"

text \<open>A stand-in that meets the contract, for the examples below. It is not Rijndael:
  it adds the key to the block bytewise (XOR) and raises on any other size, as the
  package does.\<close>

definition toy_E :: "string \<Rightarrow> string \<Rightarrow> string" where
  "toy_E key block = xor_bytes key (rev block)"

definition toy_cipher :: cipher where
  "toy_cipher key block =
     (if length key = 16 \<and> length block = 16 then Some (toy_E key block) else None)"

section \<open>Auxiliary facts\<close>

lemma of_char_int_bounds: "0 \<le> (of_char c :: int) \<and> (of_char c :: int) < 256"
proof -
  have "(of_char c :: int) = int (of_char c)"
    by (simp add: of_nat_of_char)
  moreover have "(of_char c :: nat) < 256" by simp
  ultimately show ?thesis by simp
qed

lemma crc_table_length: "length crc_table = 256"
  by (simp add: crc_table_def)

lemma crc_table_all: "list_all (\<lambda>v. 0 \<le> v \<and> v < 65536) crc_table"
  by (simp add: crc_table_def)

lemma crc_table_range:
  assumes "i < 256"
  shows "0 \<le> crc_table ! i \<and> crc_table ! i < 65536"
  using crc_table_all assms by (simp add: list_all_length crc_table_length)

lemma crc_index_range:
  "0 \<le> (of_char x :: int) XOR (crc AND 0xFF) \<and> (of_char x :: int) XOR (crc AND 0xFF) < 256"
proof -
  have a: "0 \<le> crc AND 0xFF" "crc AND 0xFF < 2 ^ 8"
    by (simp_all add: AND_upper2'')
  have b: "0 \<le> (of_char x :: int)" "(of_char x :: int) < 2 ^ 8"
    using of_char_int_bounds [of x] by simp_all
  have "(of_char x :: int) XOR (crc AND 0xFF) < 2 ^ 8"
    using b a by (intro XOR_upper) simp_all
  moreover have "0 \<le> (of_char x :: int) XOR (crc AND 0xFF)"
    using a b by simp
  ultimately show ?thesis by simp
qed

lemma tuple_get_crc_table:
  "tuple_get crc_table (of_char x XOR (crc AND 0xFF)) =
     Inr (crc_table ! nat (of_char x XOR (crc AND 0xFF)))"
  using crc_index_range [of x crc] by (simp add: tuple_get_def crc_table_length)

lemma crc_step_range:
  assumes "0 \<le> crc" "crc < 65536"
  shows "0 \<le> crc_step crc x \<and> crc_step crc x < 65536"
proof -
  let ?i = "nat (of_char x XOR (crc AND 0xFF))"
  have "?i < 256" using crc_index_range [of x crc] by linarith
  then have t: "0 \<le> crc_table ! ?i" "crc_table ! ?i < 2 ^ 16"
    using crc_table_range [of ?i] by simp_all
  have d: "0 \<le> drop_bit 8 crc" "drop_bit 8 crc < 2 ^ 16"
    using assms by (simp_all add: drop_bit_eq_div)
  have "crc_table ! ?i XOR drop_bit 8 crc < 2 ^ 16"
    using t d by (intro XOR_upper) simp_all
  moreover have "0 \<le> crc_table ! ?i XOR drop_bit 8 crc"
    using t d by simp
  ultimately show ?thesis by (simp add: crc_step_def)
qed

lemma foldl_crc_step_range:
  "0 \<le> crc \<Longrightarrow> crc < 65536 \<Longrightarrow>
     0 \<le> foldl crc_step crc xs \<and> foldl crc_step crc xs < 65536"
  by (induction xs arbitrary: crc) (simp_all add: crc_step_range)

lemma crc_loop_foldl: "crc_loop crc xs = Inr (foldl crc_step crc xs)"
  by (induction xs arbitrary: crc) (simp_all add: tuple_get_crc_table crc_step_def)


lemma hex_chars_digit: "c \<in> set hex_chars \<Longrightarrow> hex_digit_value c \<noteq> None"
  by (auto simp: hex_chars_def hex_digit_value_def)

lemma hex_string_chars: "c \<in> set (hex_string s) \<Longrightarrow> hex_digit_value c \<noteq> None"
  by (simp add: hex_string_def hex_chars_digit)

lemma a2b_hex_ok:
  "\<forall>c \<in> set hs. hex_digit_value c \<noteq> None \<Longrightarrow> even (length hs) \<Longrightarrow>
     \<exists>bs. a2b_hex hs = Inr bs \<and> 2 * length bs = length hs"
proof (induction hs rule: induct_list012)
  case 1
  then show ?case by simp
next
  case (2 c)
  then show ?case by simp
next
  case (3 hi lo rest)
  then obtain h l where hl: "hex_digit_value hi = Some h" "hex_digit_value lo = Some l"
    by auto
  have "\<exists>bs. a2b_hex rest = Inr bs \<and> 2 * length bs = length rest"
    using 3 by simp
  then obtain bs where "a2b_hex rest = Inr bs" "2 * length bs = length rest"
    by blast
  with hl show ?case by simp
qed

lemma a2b_hex_error: "a2b_hex hs = Inl err \<Longrightarrow> err = InvalidHex"
  by (induction hs rule: a2b_hex.induct)
     (auto split: option.splits sum.splits)

lemma a2b_hex_length: "a2b_hex hs = Inr bs \<Longrightarrow> 2 * length bs = length hs"
  by (induction hs arbitrary: bs rule: a2b_hex.induct)
     (auto split: option.splits sum.splits)

lemma length_ok_iff: "length_ok s \<longleftrightarrow> length (hex_string s) \<in> {16, 20, 28, 36}"
  unfolding length_ok_def install_length_def by auto

lemma install_code_not_ok: "\<not> length_ok s \<Longrightarrow> install_code s = Inl InvalidLength"
  by (simp add: install_code_def length_ok_def Let_def)

lemma install_code_ok:
  assumes "length_ok s"
  shows "\<exists>code. install_code s = Inr code \<and> a2b_hex (hex_string s) = Inr code
           \<and> 2 * length code = length (hex_string s)"
proof -
  have "even (length (hex_string s))"
    using assms by (auto simp: length_ok_iff)
  then obtain bs where "a2b_hex (hex_string s) = Inr bs" "2 * length bs = length (hex_string s)"
    using a2b_hex_ok [of "hex_string s"] hex_string_chars by blast
  moreover have "install_code s = a2b_hex (hex_string s)"
    using assms by (auto simp: install_code_def length_ok_def Let_def)
  ultimately show ?thesis by simp
qed

lemma install_code_Inr:
  assumes "install_code s = Inr code"
  shows "length_ok s \<and> a2b_hex (hex_string s) = Inr code \<and> length code \<in> {8, 10, 14, 18}"
proof -
  have ok: "length_ok s"
    using assms install_code_not_ok [of s] by auto
  then obtain c where c: "install_code s = Inr c" "a2b_hex (hex_string s) = Inr c"
      "2 * length c = length (hex_string s)"
    using install_code_ok by blast
  with assms have "c = code" by simp
  with c ok show ?thesis by (auto simp: length_ok_iff)
qed

lemma calc_crc_eq: "calc_crc code = Inr (crc16_bytes (decoded_bytes code))"
proof -
  let ?r = "foldl crc_step 0xFFFF (decoded_bytes code)"
  have r: "0 \<le> ?r" "?r < 2 ^ 16"
    using foldl_crc_step_range [of "0xFFFF" "decoded_bytes code"] by simp_all
  have "?r XOR 0xFFFF < 2 ^ 16"
    using r by (intro XOR_upper) simp_all
  moreover have "0 \<le> ?r XOR 0xFFFF" using r by simp
  ultimately show ?thesis
    by (simp add: calc_crc_def crc_loop_foldl pack_le_H_def crc16_bytes_def Let_def)
qed

lemma given_crc_length: "2 \<le> length code \<Longrightarrow> length (given_crc code) = 2"
  by (simp add: given_crc_def)

lemma unpack_be_H_two: "length s = 2 \<Longrightarrow> \<exists>v. unpack_be_H s = Inr v"
  by (auto simp: unpack_be_H_def length_Suc_conv numeral_2_eq_2)

lemma verify_crc_cases:
  assumes "2 \<le> length code"
  shows "(verify_crc code = Inr () \<and> calc_crc code = Inr (given_crc code)) \<or>
         (\<exists>g c calc. verify_crc code = Inl (ChecksumMismatch g c) \<and> calc_crc code = Inr calc
             \<and> given_crc code \<noteq> calc)"
proof -
  obtain calc where calc: "calc_crc code = Inr calc" "length calc = 2"
    using calc_crc_eq [of code] by (simp add: crc16_bytes_def Let_def)
  obtain g where g: "unpack_be_H (given_crc code) = Inr g"
    using unpack_be_H_two given_crc_length assms by blast
  obtain c where c: "unpack_be_H calc = Inr c"
    using unpack_be_H_two calc by blast
  show ?thesis
    using calc g c by (simp add: verify_crc_def)
qed

lemma pad_eq:
  assumes "length code < 8192"
  shows "pad code = Inr (code @ [CHR 0x80]
           @ replicate (nat ((- (int (length code) + 3)) mod 16)) (CHR 0x00)
           @ [char_of (int (length code) * 8 div 256), char_of (int (length code) * 8 mod 256)])"
  using assms by (simp add: pad_def pack_be_H_def SECURITY_BLOCK_SIZE_def Let_def)

lemma pad_length:
  assumes "pad code = Inr msg"
  shows "length msg mod 16 = 0"
proof -
  have lt: "length code < 8192"
    using assms by (auto simp: pad_def pack_be_H_def Let_def split: if_splits)
  let ?k = "(- (int (length code) + 3)) mod 16"
  have k: "0 \<le> ?k" by simp
  have "int (length msg) = int (length code) + 1 + ?k + 2"
    using assms pad_eq [OF lt] k by auto
  then have "int (length msg) mod 16 = 0"
    by presburger
  then show ?thesis by presburger
qed


lemma py_chr_xor: "py_chr (of_char a XOR of_char b) = Inr (char_of ((of_char a :: int) XOR of_char b))"
proof -
  have a: "0 \<le> (of_char a :: int)" "(of_char a :: int) < 2 ^ 8"
    using of_char_int_bounds [of a] by simp_all
  have b: "0 \<le> (of_char b :: int)" "(of_char b :: int) < 2 ^ 8"
    using of_char_int_bounds [of b] by simp_all
  have "(of_char a :: int) XOR of_char b < 2 ^ 8"
    using a b by (intro XOR_upper) simp_all
  moreover have "0 \<le> (of_char a :: int) XOR of_char b"
    using a b by simp
  ultimately show ?thesis by (simp add: py_chr_def)
qed

lemma e_loop_eq:
  "\<forall>i \<in> set js. i < length aes_m \<and> i < length m \<Longrightarrow>
     e_loop aes_m m js hash =
       Inr (hash @ map (\<lambda>i. char_of ((of_char (aes_m ! i) :: int) XOR of_char (m ! i))) js)"
  by (induction js arbitrary: hash) (simp_all add: py_chr_xor)

lemma xor_bytes_nth:
  "length a = n \<Longrightarrow> length b = n \<Longrightarrow>
     map (\<lambda>i. char_of ((of_char (a ! i) :: int) XOR of_char (b ! i))) [0..<n] = xor_bytes a b"
  by (rule nth_equalityI) (simp_all add: xor_bytes_def)

lemma xor_bytes_length: "length (xor_bytes a b) = min (length a) (length b)"
  by (simp add: xor_bytes_def)

lemma e_eq:
  assumes "enc hash m = Some c" "length c = length hash" "length m = length hash"
  shows "e enc hash m = Inr (xor_bytes c m)"
proof -
  have "e enc hash m = e_loop c m [0..<length hash] []"
    using assms by (simp add: e_def)
  also have "\<dots> = Inr ([] @ map (\<lambda>i. char_of ((of_char (c ! i) :: int) XOR of_char (m ! i)))
                          [0..<length hash])"
    using assms by (intro e_loop_eq) simp
  finally show ?thesis
    using xor_bytes_nth [of c "length hash" m] assms by simp
qed

lemma e_mmo_step:
  assumes "implements enc E" "length hash = 16" "length m = 16"
  shows "e enc hash m = Inr (mmo_step E hash m) \<and> length (mmo_step E hash m) = 16"
proof -
  have c: "enc hash m = Some (E hash m)" "length (E hash m) = 16"
    using assms by (simp_all add: implements_def)
  then have "e enc hash m = Inr (xor_bytes (E hash m) m)"
    using assms by (intro e_eq) simp_all
  then show ?thesis
    using c assms by (simp add: mmo_step_def xor_bytes_length)
qed

lemma block_length:
  assumes "length msg = 16 * n" "j < n"
  shows "length (take 16 (drop (j * 16) msg)) = 16"
  using assms by simp

lemma hash_loop_foldl:
  assumes "implements enc E" "length msg = 16 * n"
  shows "j \<le> n \<Longrightarrow> length h = 16 \<Longrightarrow>
     hash_loop enc msg (j * 16) h =
       Inr (foldl (mmo_step E) h (map (\<lambda>j. take 16 (drop (j * 16) msg)) [j..<n]))"
proof (induction "n - j" arbitrary: j h)
  case 0
  then have "\<not> j * 16 < length msg" using assms by simp
  moreover have "n \<le> j" using 0 by simp
  ultimately show ?case
    by (subst hash_loop.simps) simp
next
  case (Suc d)
  then have jn: "j < n" by simp
  let ?m = "take 16 (drop (j * 16) msg)"
  have len: "length ?m = 16" using assms jn by simp
  have step: "e enc h ?m = Inr (mmo_step E h ?m)" "length (mmo_step E h ?m) = 16"
    using e_mmo_step [OF assms(1) Suc.prems(2) len] by simp_all
  have ih: "hash_loop enc msg (Suc j * 16) (mmo_step E h ?m) =
       Inr (foldl (mmo_step E) (mmo_step E h ?m)
              (map (\<lambda>j. take 16 (drop (j * 16) msg)) [Suc j..<n]))"
    using Suc jn step by (intro Suc.hyps) simp_all
  have lt: "j * 16 < length msg" using assms jn by simp
  have "hash_loop enc msg (j * 16) h = hash_loop enc msg (Suc j * 16) (mmo_step E h ?m)"
    using lt step by (subst hash_loop.simps) (simp add: SECURITY_BLOCK_SIZE_def add.commute)
  also note ih
  finally show ?case
    using jn by (simp add: upt_conv_Cons)
qed

lemma foldl_mmo_step_length:
  assumes "implements enc E" "\<forall>m \<in> set ms. length m = 16"
  shows "length h = 16 \<Longrightarrow> length (foldl (mmo_step E) h ms) = 16"
  using assms(2)
proof (induction ms arbitrary: h)
  case Nil
  then show ?case by simp
next
  case (Cons m ms)
  then have "length (mmo_step E h m) = 16"
    using e_mmo_step [OF assms(1), of h m] by simp
  with Cons show ?case by simp
qed

lemma blocks_lengths:
  "m \<in> set (blocks msg) \<Longrightarrow> length m = 16"
  by (auto simp: blocks_def)

lemma hash_loop_mmo:
  assumes "implements enc E" "length msg mod 16 = 0"
  shows "hash_loop enc msg 0 (replicate SECURITY_BLOCK_SIZE (CHR 0x00)) = Inr (mmo E msg)"
    and "length (mmo E msg) = 16"
proof -
  obtain n where n: "length msg = 16 * n"
    using assms(2) by auto
  then have d: "length msg div 16 = n" by simp
  show "hash_loop enc msg 0 (replicate SECURITY_BLOCK_SIZE (CHR 0x00)) = Inr (mmo E msg)"
    using hash_loop_foldl [OF assms(1) n, of 0 "replicate 16 (CHR 0x00)"]
    by (simp add: mmo_def blocks_def d SECURITY_BLOCK_SIZE_def)
  show "length (mmo E msg) = 16"
    unfolding mmo_def
    using blocks_lengths by (intro foldl_mmo_step_length [OF assms(1)]) simp_all
qed

lemma cipher_ok_implements: "cipher_ok enc \<Longrightarrow> implements enc (\<lambda>k m. the (enc k m))"
  unfolding cipher_ok_def implements_def by fastforce


lemma crc_bit_step_xor: "crc_bit_step (a XOR b) = crc_bit_step a XOR crc_bit_step b"
proof -
  have odd_iff: "(c AND 1 = 1) = odd c" for c :: int
    by (simp add: and_one_eq mod_2_eq_odd)
  show ?thesis
    by (simp add: crc_bit_step_def odd_iff even_xor_iff xor.assoc xor.left_commute)
       (simp add: xor.commute xor.left_commute)
qed

lemma crc_bit_steps_xor:
  "(crc_bit_step ^^ n) (a XOR b) = (crc_bit_step ^^ n) a XOR (crc_bit_step ^^ n) b"
  by (induction n arbitrary: a b) (simp_all add: crc_bit_step_xor)

lemma crc_bit_step_even: "crc_bit_step (push_bit (Suc n) y) = push_bit n y"
proof -
  have "\<not> odd (push_bit (Suc n) y)" by simp
  then have "push_bit (Suc n) y AND 1 \<noteq> 1"
    by (simp add: and_one_eq mod_2_eq_odd)
  then show ?thesis
    by (simp add: crc_bit_step_def drop_bit_Suc push_bit_eq_mult)
qed

lemma crc_bit_steps_push_bit: "(crc_bit_step ^^ n) (push_bit n y) = y"
proof (induction n)
  case 0
  then show ?case by simp
next
  case (Suc n)
  have "(crc_bit_step ^^ Suc n) (push_bit (Suc n) y) =
          (crc_bit_step ^^ n) (crc_bit_step (push_bit (Suc n) y))"
    by (simp only: funpow_Suc_right comp_apply)
  with Suc show ?case by (simp only: crc_bit_step_even)
qed

lemma crc_split: "crc XOR of_char x =
    ((of_char x :: int) XOR (crc AND 0xFF)) XOR push_bit 8 (drop_bit 8 crc)"
proof -
  have m: "(0xFF :: int) = mask 8" by (simp add: mask_eq_exp_minus_1)
  have "crc = (crc AND 0xFF) XOR push_bit 8 (drop_bit 8 crc)"
    unfolding m by (rule bit_eqI) (auto simp: bit_simps)
  then have "crc XOR of_char x = ((crc AND 0xFF) XOR push_bit 8 (drop_bit 8 crc)) XOR of_char x"
    by simp
  then show ?thesis
    by (simp add: xor.commute xor.left_commute)
qed

lemma table_from_crc_table: "table_from 0 crc_table"
  by (simp add: crc_table_def crc_table_entry_def crc_bit_step_def eval_nat_numeral)

lemma table_from_nth:
  "table_from k vs \<Longrightarrow> i < length vs \<Longrightarrow> vs ! i = crc_table_entry (k + int i)"
proof (induction vs arbitrary: k i)
  case Nil
  then show ?case by simp
next
  case (Cons v vs)
  show ?case
  proof (cases i)
    case 0
    with Cons.prems show ?thesis by simp
  next
    case (Suc j)
    with Cons.prems have "vs ! j = crc_table_entry (k + 1 + int j)"
      by (intro Cons.IH) simp_all
    with Suc show ?thesis by (simp add: add.assoc)
  qed
qed

lemma crc_table_nth: "i < 256 \<Longrightarrow> crc_table ! i = crc_table_entry (int i)"
  using table_from_nth [OF table_from_crc_table, of i] by (simp add: crc_table_length)

lemma crc_step_bitwise: "crc_step crc x = crc_bitwise_update crc x"
proof -
  let ?t = "(of_char x :: int) XOR (crc AND 0xFF)"
  have r: "0 \<le> ?t" "?t < 256" using crc_index_range [of x crc] by simp_all
  then have "nat ?t < 256" by linarith
  then have "crc_table ! nat ?t = crc_table_entry ?t"
    using crc_table_nth [of "nat ?t"] r by simp
  moreover have "(crc_bit_step ^^ 8) (crc XOR of_char x) =
      (crc_bit_step ^^ 8) ?t XOR (crc_bit_step ^^ 8) (push_bit 8 (drop_bit 8 crc))"
    by (subst crc_split) (rule crc_bit_steps_xor)
  ultimately show ?thesis
    by (simp only: crc_step_def crc_bitwise_update_def crc_table_entry_def crc_bit_steps_push_bit)
qed

lemma padded_message_Inr:
  assumes "padded_message s = Inr msg"
  shows "\<exists>code. install_code s = Inr code \<and> verify_crc code = Inr ()
           \<and> given_crc code = crc16_bytes (decoded_bytes code) \<and> pad code = Inr msg"
proof -
  from assms obtain code where code: "install_code s = Inr code"
    by (auto simp: padded_message_def split: sum.splits)
  then have "2 \<le> length code"
    using install_code_Inr [OF code] by auto
  from verify_crc_cases [OF this] assms code show ?thesis
    by (auto simp: padded_message_def calc_crc_eq)
qed

lemma padded_message_Inl:
  assumes "padded_message s = Inl err"
  shows "(err = InvalidLength \<and> \<not> length_ok s) \<or>
         (\<exists>g c code. err = ChecksumMismatch g c \<and> install_code s = Inr code
            \<and> given_crc code \<noteq> crc16_bytes (decoded_bytes code))"
proof (cases "length_ok s")
  case False
  then show ?thesis
    using assms by (simp add: padded_message_def install_code_not_ok)
next
  case True
  then obtain code where code: "install_code s = Inr code"
    using install_code_ok by blast
  then have len: "length code \<in> {8, 10, 14, 18}"
    using install_code_Inr [OF code] by simp
  then have "2 \<le> length code" by auto
  from verify_crc_cases [OF this] show ?thesis
  proof
    assume "verify_crc code = Inr () \<and> calc_crc code = Inr (given_crc code)"
    moreover have "length code < 8192" using len by auto
    ultimately show ?thesis
      using assms code pad_eq [of code] by (simp add: padded_message_def)
  next
    assume "\<exists>g c calc. verify_crc code = Inl (ChecksumMismatch g c) \<and> calc_crc code = Inr calc
             \<and> given_crc code \<noteq> calc"
    then show ?thesis
      using assms code by (auto simp: padded_message_def calc_crc_eq)
  qed
qed

lemma e_loop_error:
  "e_loop aes_m m js hash = Inl err \<Longrightarrow> err = IndexError \<or> err = ValueError"
  by (induction js arbitrary: hash)
     (auto simp: py_chr_def split: if_splits sum.splits)

lemma e_error:
  "e enc hash m = Inl err \<Longrightarrow> err = CipherError \<or> err = IndexError \<or> err = ValueError"
  by (auto simp: e_def Let_def split: option.splits dest: e_loop_error)

lemma hash_loop_error:
  "hash_loop enc msg i hash = Inl err \<Longrightarrow>
     err = CipherError \<or> err = IndexError \<or> err = ValueError"
proof (induction enc msg i hash rule: hash_loop.induct)
  case (1 enc msg i hash)
  show ?case
  proof (cases "e enc hash (take SECURITY_BLOCK_SIZE (drop i msg))")
    case (Inl x)
    with "1.prems" have "i < length msg \<and> x = err"
      by (subst (asm) hash_loop.simps) (simp split: if_splits)
    with Inl e_error show ?thesis by blast
  next
    case (Inr h)
    with "1.prems" have lt: "i < length msg"
        and "hash_loop enc msg (i + SECURITY_BLOCK_SIZE) h = Inl err"
      by (subst (asm) hash_loop.simps, simp split: if_splits)+
    with "1.IH" Inr show ?thesis by blast
  qed
qed

lemma upper_char_hex: "(upper_char c \<in> set hex_chars) = is_hex_digit c"
proof -
  have "\<forall>c \<in> set (Enum.enum :: char list). (upper_char c \<in> set hex_chars) = is_hex_digit c"
    by code_simp
  then show ?thesis by (simp add: enum_UNIV)
qed

lemma hex_string_surviving: "hex_string s = surviving_hex_digits s"
  by (simp add: hex_string_def surviving_hex_digits_def upper_def filter_map comp_def
      upper_char_hex)

lemma concat_blocks_aux:
  "length msg = 16 * n \<Longrightarrow>
     concat (map (\<lambda>j. take 16 (drop (j * 16) msg)) [0..<n]) = msg"
proof (induction n arbitrary: msg)
  case 0
  then show ?case by simp
next
  case (Suc n)
  have "[0..<Suc n] = 0 # map Suc [0..<n]"
    by (simp add: upt_conv_Cons map_Suc_upt del: upt_Suc)
  then have "concat (map (\<lambda>j. take 16 (drop (j * 16) msg)) [0..<Suc n]) =
      take 16 msg @ concat (map (\<lambda>j. take 16 (drop (j * 16) (drop 16 msg))) [0..<n])"
    by (simp add: comp_def add.commute del: upt_Suc)
  also have "concat (map (\<lambda>j. take 16 (drop (j * 16) (drop 16 msg))) [0..<n]) = drop 16 msg"
    using Suc.prems by (intro Suc.IH) simp
  finally show ?case by simp
qed

lemma concat_blocks: "length msg mod 16 = 0 \<Longrightarrow> concat (blocks msg) = msg"
proof -
  assume "length msg mod 16 = 0"
  then obtain n where n: "length msg = 16 * n" by auto
  then have "length msg div 16 = n" by simp
  with concat_blocks_aux [OF n] show ?thesis by (simp add: blocks_def)
qed

lemma toy_cipher_implements: "implements toy_cipher toy_E"
  by (simp add: implements_def toy_cipher_def toy_E_def xor_bytes_length)

lemma toy_cipher_ok: "cipher_ok toy_cipher"
  by (simp add: cipher_ok_def toy_cipher_def toy_E_def xor_bytes_length)

subsection \<open>Evaluations at concrete installation codes\<close>

lemma install_code_example:
  "install_code ''83FED3407A932B70'' =
     Inr [CHR 0x83, CHR 0xFE, CHR 0xD3, CHR 0x40, CHR 0x7A, CHR 0x93, CHR 0x2B, CHR 0x70]"
  by code_simp

lemma padded_message_example:
  "padded_message ''83FED3407A932B70'' =
     Inr [CHR 0x83, CHR 0xFE, CHR 0xD3, CHR 0x40, CHR 0x7A, CHR 0x93, CHR 0x2B, CHR 0x70,
          CHR 0x80, CHR 0x00, CHR 0x00, CHR 0x00, CHR 0x00, CHR 0x00, CHR 0x00, CHR 0x40]"
  by code_simp

lemma decode_example:
  "decode toy_cipher ''83FED3407A932B70'' =
     Inr [CHR 0xC3, CHR 0xFE, CHR 0xD3, CHR 0x40, CHR 0x7A, CHR 0x93, CHR 0x2B, CHR 0xF0,
          CHR 0xF0, CHR 0x2B, CHR 0x93, CHR 0x7A, CHR 0x40, CHR 0xD3, CHR 0xFE, CHR 0xC3]"
  by code_simp

lemma install_code_bad_crc_example:
  "install_code ''83FED3407A930000'' =
     Inr [CHR 0x83, CHR 0xFE, CHR 0xD3, CHR 0x40, CHR 0x7A, CHR 0x93, CHR 0x00, CHR 0x00]"
  by code_simp

lemma decode_bad_crc_example:
  "decode toy_cipher ''83FED3407A930000'' = Inl (ChecksumMismatch 0 0x2B70)"
  by code_simp

lemma decode_not_hex_error: "decode enc s \<noteq> Inl InvalidHex"
proof
  assume a: "decode enc s = Inl InvalidHex"
  show False
  proof (cases "padded_message s")
    case (Inl err)
    with a have "err = InvalidHex" by (simp add: decode_def)
    with padded_message_Inl [OF Inl] show False by auto
  next
    case (Inr msg)
    with a have "hash_loop enc msg 0 (replicate SECURITY_BLOCK_SIZE (CHR 0x00)) = Inl InvalidHex"
      by (simp add: decode_def)
    from hash_loop_error [OF this] show False by simp
  qed
qed

lemma decode_error_from_validation:
  assumes "decode enc s = Inl err" "err = InvalidLength \<or> err = ChecksumMismatch g c"
  shows "padded_message s = Inl err"
proof (cases "padded_message s")
  case (Inl x)
  with assms show ?thesis by (simp add: decode_def)
next
  case (Inr msg)
  with assms have "hash_loop enc msg 0 (replicate SECURITY_BLOCK_SIZE (CHR 0x00)) = Inl err"
    by (simp add: decode_def)
  from hash_loop_error [OF this] assms(2) show ?thesis by auto
qed

section \<open>The length check\<close>

text \<open>
  Claim C5. For every input string, \<open>decode\<close> fails with the invalid-length error if
  and only if (number of surviving hex digits - 4) * 4 is none of 48, 64, 96 and 128. In
  particular an input with fewer than four surviving hex digits, the empty string
  included, fails with this error: the subtraction is on integers, and nothing is
  indexed before the check.
\<close>

theorem invalid_length_iff:
  "(decode enc s = Inl InvalidLength \<longleftrightarrow>
      (int (length (hex_string s)) - 4) * 4 \<notin> {48, 64, 96, 128}) \<and>
   (length (hex_string s) < 4 \<longrightarrow> decode enc s = Inl InvalidLength)"
proof -
  have iff: "decode enc s = Inl InvalidLength \<longleftrightarrow> \<not> length_ok s"
  proof
    assume "decode enc s = Inl InvalidLength"
    then have "padded_message s = Inl InvalidLength"
      by (rule decode_error_from_validation) simp
    from padded_message_Inl [OF this] show "\<not> length_ok s" by simp
  next
    assume "\<not> length_ok s"
    then show "decode enc s = Inl InvalidLength"
      by (simp add: decode_def padded_message_def install_code_not_ok)
  qed
  have "length (hex_string s) < 4 \<Longrightarrow> \<not> length_ok s"
    by (simp add: length_ok_iff)
  with iff show ?thesis
    by (simp add: length_ok_def install_length_def)
qed

theorem invalid_length_iff_witness:
  "decode toy_cipher '''' = Inl InvalidLength \<and>
   decode toy_cipher ''12-34'' = Inl InvalidLength \<and>
   decode toy_cipher ''83FED3407A932B70'' \<noteq> Inl InvalidLength"
proof -
  have a: "hex_string '''' = ''''" "hex_string ''12-34'' = ''1234''"
      "hex_string ''83FED3407A932B70'' = ''83FED3407A932B70''"
    by code_simp+
  show ?thesis
    using invalid_length_iff [of toy_cipher "''''"]
      invalid_length_iff [of toy_cipher "''12-34''"]
      invalid_length_iff [of toy_cipher "''83FED3407A932B70''"]
    by (simp add: a)
qed

text \<open>
  Claim C6. For every input that passes the length check, the number of surviving hex
  digits is one of 16, 20, 28 and 36, hence even, so \<open>a2b_hex\<close> returns the bytes and
  \<open>decode\<close> never fails with the invalid-hex error.
\<close>

theorem length_check_excludes_invalid_hex:
  assumes "length_ok s"
  shows "length (hex_string s) \<in> {16, 20, 28, 36} \<and> even (length (hex_string s)) \<and>
         (\<exists>code. a2b_hex (hex_string s) = Inr code \<and> install_code s = Inr code) \<and>
         decode enc s \<noteq> Inl InvalidHex"
proof -
  have "length (hex_string s) \<in> {16, 20, 28, 36}"
    using assms by (simp add: length_ok_iff)
  moreover from this have "even (length (hex_string s))" by auto
  moreover have "\<exists>code. a2b_hex (hex_string s) = Inr code \<and> install_code s = Inr code"
    using install_code_ok [OF assms] by blast
  ultimately show ?thesis
    using decode_not_hex_error by blast
qed

theorem length_check_excludes_invalid_hex_witness:
  "length_ok ''83fe-d340-7a93-2b70'' \<and>
   a2b_hex (hex_string ''83fe-d340-7a93-2b70'') =
     Inr [CHR 0x83, CHR 0xFE, CHR 0xD3, CHR 0x40, CHR 0x7A, CHR 0x93, CHR 0x2B, CHR 0x70]"
proof -
  have ok: "length_ok ''83fe-d340-7a93-2b70''" by code_simp
  have "a2b_hex (hex_string ''83fe-d340-7a93-2b70'') =
     Inr [CHR 0x83, CHR 0xFE, CHR 0xD3, CHR 0x40, CHR 0x7A, CHR 0x93, CHR 0x2B, CHR 0x70]"
    by code_simp
  with ok length_check_excludes_invalid_hex [OF ok, of toy_cipher] show ?thesis by simp
qed

section \<open>Normalisation\<close>

text \<open>
  Claim C7. The result of \<open>decode\<close> depends only on the case-folded subsequence of
  hexadecimal digits of its input: two inputs with the same surviving hex digits give
  the same result, so characters that are no hex digits and the case of the letters
  never matter.
\<close>

theorem decode_depends_on_hex_digits:
  assumes "surviving_hex_digits s1 = surviving_hex_digits s2"
  shows "decode enc s1 = decode enc s2"
proof -
  have "hex_string s1 = hex_string s2"
    using assms by (simp add: hex_string_surviving)
  then have "install_code s1 = install_code s2"
    by (simp add: install_code_def install_length_def)
  then show ?thesis
    by (simp add: decode_def padded_message_def)
qed

theorem decode_depends_on_hex_digits_witness:
  "surviving_hex_digits ''83fe-d340 7a93:2b70'' = surviving_hex_digits ''83FED3407A932B70'' \<and>
   decode toy_cipher ''83fe-d340 7a93:2b70'' = decode toy_cipher ''83FED3407A932B70''"
proof -
  have h: "surviving_hex_digits ''83fe-d340 7a93:2b70'' = surviving_hex_digits ''83FED3407A932B70''"
    by code_simp
  from h decode_depends_on_hex_digits [OF h, of toy_cipher] show ?thesis by simp
qed

section \<open>The padded message\<close>

text \<open>
  Claim C8. For every accepted input, the length of the padded message handed to the
  compression loop is a multiple of 16, so every slice \<open>install_code[i:i + 16]\<close> the
  loop takes (at an index below the length that is a multiple of 16) has 16 bytes.
\<close>

theorem padded_message_whole_blocks:
  assumes "padded_message s = Inr msg"
  shows "length msg mod SECURITY_BLOCK_SIZE = 0 \<and>
         (\<forall>i. i < length msg \<and> i mod SECURITY_BLOCK_SIZE = 0 \<longrightarrow>
            length (take SECURITY_BLOCK_SIZE (drop i msg)) = SECURITY_BLOCK_SIZE)"
proof -
  obtain code where "pad code = Inr msg"
    using padded_message_Inr [OF assms] by blast
  then have m: "length msg mod 16 = 0" by (rule pad_length)
  have "length (take 16 (drop i msg)) = 16" if lt: "i < length msg" and md: "i mod 16 = 0" for i
  proof -
    obtain n where n: "length msg = 16 * n" using m by auto
    obtain j where j: "i = 16 * j" using md by auto
    with n lt have "j < n" by simp
    with n j show ?thesis by simp
  qed
  with m show ?thesis by (simp add: SECURITY_BLOCK_SIZE_def)
qed

theorem padded_message_whole_blocks_witness:
  "padded_message ''83FED3407A932B70'' =
     Inr [CHR 0x83, CHR 0xFE, CHR 0xD3, CHR 0x40, CHR 0x7A, CHR 0x93, CHR 0x2B, CHR 0x70,
          CHR 0x80, CHR 0x00, CHR 0x00, CHR 0x00, CHR 0x00, CHR 0x00, CHR 0x00, CHR 0x40] \<and>
   length [CHR 0x83, CHR 0xFE, CHR 0xD3, CHR 0x40, CHR 0x7A, CHR 0x93, CHR 0x2B, CHR 0x70,
          CHR 0x80, CHR 0x00, CHR 0x00, CHR 0x00, CHR 0x00, CHR 0x00, CHR 0x00, CHR 0x40]
     mod SECURITY_BLOCK_SIZE = 0"
  using padded_message_whole_blocks [OF padded_message_example] padded_message_example
  by simp

lemma padded_message_hash:
  assumes "implements enc E" "padded_message s = Inr msg"
  shows "hash_loop enc msg 0 (replicate SECURITY_BLOCK_SIZE (CHR 0x00)) = Inr (mmo E msg)"
    and "length (mmo E msg) = 16"
    and "length msg mod 16 = 0"
proof -
  obtain code where "pad code = Inr msg"
    using padded_message_Inr [OF assms(2)] by blast
  then show m: "length msg mod 16 = 0" by (rule pad_length)
  show "hash_loop enc msg 0 (replicate SECURITY_BLOCK_SIZE (CHR 0x00)) = Inr (mmo E msg)"
    using assms(1) m by (rule hash_loop_mmo(1))
  show "length (mmo E msg) = 16"
    using assms(1) m by (rule hash_loop_mmo(2))
qed

section \<open>The hash stage\<close>

text \<open>
  Claim C4. The hash stage is the Matyas-Meyer-Oseas construction: the chaining state
  starts as 16 zero bytes; for each successive 16-byte block \<open>m\<close> of the padded
  message, in order, the new state is \<open>E state m XOR m\<close>, where \<open>E\<close> is the
  single-block encryption keyed by the current state; the state after the last block is
  the link key that \<open>decode\<close> returns. The blocks are 16 bytes each and together are
  the whole padded message.
\<close>

theorem decode_is_mmo:
  assumes "implements enc E" "padded_message s = Inr msg"
  shows "decode enc s = Inr (mmo E msg) \<and>
         mmo E msg = foldl (\<lambda>state m. xor_bytes (E state m) m) (replicate 16 (CHR 0x00)) (blocks msg) \<and>
         concat (blocks msg) = msg \<and> (\<forall>m \<in> set (blocks msg). length m = 16)"
proof -
  have "decode enc s = Inr (mmo E msg)"
    using padded_message_hash(1) [OF assms] assms(2) by (simp add: decode_def)
  moreover have "mmo_step E = (\<lambda>state m. xor_bytes (E state m) m)"
    by (simp add: mmo_step_def fun_eq_iff)
  moreover have "concat (blocks msg) = msg"
    using padded_message_hash(3) [OF assms] by (rule concat_blocks)
  ultimately show ?thesis
    using blocks_lengths by (simp add: mmo_def)
qed

theorem decode_is_mmo_witness:
  "implements toy_cipher toy_E \<and>
   decode toy_cipher ''83FED3407A932B70'' =
     Inr (mmo toy_E [CHR 0x83, CHR 0xFE, CHR 0xD3, CHR 0x40, CHR 0x7A, CHR 0x93, CHR 0x2B,
       CHR 0x70, CHR 0x80, CHR 0x00, CHR 0x00, CHR 0x00, CHR 0x00, CHR 0x00, CHR 0x00, CHR 0x40])"
  using decode_is_mmo [OF toy_cipher_implements padded_message_example] toy_cipher_implements
  by simp

text \<open>
  Claim C10. Given a cipher that returns a 16-byte block for a 16-byte key and a 16-byte
  input, \<open>decode\<close> either raises the invalid-length error, or raises the
  checksum-mismatch error, or returns a key of 16 bytes; and once validation has
  succeeded (the padded message exists) the hash stage raises nothing.
\<close>

theorem decode_key_or_classified_error:
  assumes "cipher_ok enc"
  shows "(decode enc s = Inl InvalidLength \<or>
          (\<exists>g c. decode enc s = Inl (ChecksumMismatch g c)) \<or>
          (\<exists>key. decode enc s = Inr key \<and> length key = 16)) \<and>
         (\<forall>msg. padded_message s = Inr msg \<longrightarrow>
            (\<exists>key. hash_loop enc msg 0 (replicate SECURITY_BLOCK_SIZE (CHR 0x00)) = Inr key
               \<and> length key = 16))"
proof -
  let ?E = "\<lambda>k m. the (enc k m)"
  have impl: "implements enc ?E"
    using assms by (rule cipher_ok_implements)
  have hash: "\<exists>key. hash_loop enc msg 0 (replicate SECURITY_BLOCK_SIZE (CHR 0x00)) = Inr key
      \<and> length key = 16" if "padded_message s = Inr msg" for msg
    using padded_message_hash(1,2) [OF impl that] by blast
  have "decode enc s = Inl InvalidLength \<or>
          (\<exists>g c. decode enc s = Inl (ChecksumMismatch g c)) \<or>
          (\<exists>key. decode enc s = Inr key \<and> length key = 16)"
  proof (cases "padded_message s")
    case (Inl err)
    then have "decode enc s = Inl err" by (simp add: decode_def)
    with padded_message_Inl [OF Inl] show ?thesis by auto
  next
    case (Inr msg)
    then have "decode enc s = hash_loop enc msg 0 (replicate SECURITY_BLOCK_SIZE (CHR 0x00))"
      by (simp add: decode_def)
    with hash [OF Inr] show ?thesis by auto
  qed
  with hash show ?thesis by blast
qed

theorem decode_key_or_classified_error_witness:
  "cipher_ok toy_cipher \<and>
   decode toy_cipher ''83FED3407A932B70'' =
     Inr [CHR 0xC3, CHR 0xFE, CHR 0xD3, CHR 0x40, CHR 0x7A, CHR 0x93, CHR 0x2B, CHR 0xF0,
          CHR 0xF0, CHR 0x2B, CHR 0x93, CHR 0x7A, CHR 0x40, CHR 0xD3, CHR 0xFE, CHR 0xC3] \<and>
   decode toy_cipher ''83FED3407A930000'' = Inl (ChecksumMismatch 0 0x2B70) \<and>
   (\<exists>key. hash_loop toy_cipher
       [CHR 0x83, CHR 0xFE, CHR 0xD3, CHR 0x40, CHR 0x7A, CHR 0x93, CHR 0x2B, CHR 0x70,
        CHR 0x80, CHR 0x00, CHR 0x00, CHR 0x00, CHR 0x00, CHR 0x00, CHR 0x00, CHR 0x40]
       0 (replicate SECURITY_BLOCK_SIZE (CHR 0x00)) = Inr key \<and> length key = 16)"
  using decode_key_or_classified_error [OF toy_cipher_ok, of "''83FED3407A932B70''"]
    toy_cipher_ok decode_example decode_bad_crc_example padded_message_example
  by simp

lemma unpack_be_H_error: "unpack_be_H s = Inl err \<Longrightarrow> err = StructError"
  by (auto simp: unpack_be_H_def split: list.splits)

section \<open>The checksum\<close>

text \<open>
  Claim C3. For every input that passes the length check, the decoded bytes split into
  the bytes in front and the two given checksum bytes; the CRC-16 runs over the bytes
  in front only, from register \<open>0xFFFF\<close>, one table step
  \<open>table[byte XOR (crc AND 0xFF)] XOR (crc >> 8)\<close> per byte, with a final XOR
  \<open>0xFFFF\<close>, packed low byte first; \<open>decode\<close> fails with the checksum-mismatch
  error exactly when these two bytes differ from the given ones, and the error then
  carries both pairs of bytes read as big-endian numbers.
\<close>

theorem checksum_mismatch_iff:
  assumes "install_code s = Inr code"
  shows "code = decoded_bytes code @ given_crc code \<and> length (given_crc code) = 2 \<and>
         ((\<exists>g c. decode enc s = Inl (ChecksumMismatch g c)) \<longleftrightarrow>
            given_crc code \<noteq> crc16_bytes (decoded_bytes code)) \<and>
         (\<forall>g c. decode enc s = Inl (ChecksumMismatch g c) \<longrightarrow>
            unpack_be_H (given_crc code) = Inr g \<and>
            unpack_be_H (crc16_bytes (decoded_bytes code)) = Inr c)"
proof -
  have len: "2 \<le> length code"
    using install_code_Inr [OF assms] by auto
  have split: "code = decoded_bytes code @ given_crc code"
    by (simp add: decoded_bytes_def given_crc_def)
  have glen: "length (given_crc code) = 2"
    using len by (rule given_crc_length)
  have pm: "padded_message s = (case verify_crc code of Inl err \<Rightarrow> Inl err | Inr _ \<Rightarrow> pad code)"
    using assms by (simp add: padded_message_def)
  have iff: "(\<exists>g c. decode enc s = Inl (ChecksumMismatch g c)) \<longleftrightarrow>
            given_crc code \<noteq> crc16_bytes (decoded_bytes code)"
  proof
    assume "\<exists>g c. decode enc s = Inl (ChecksumMismatch g c)"
    then obtain g c where "decode enc s = Inl (ChecksumMismatch g c)" by blast
    then have "padded_message s = Inl (ChecksumMismatch g c)"
      by (rule decode_error_from_validation) simp
    from padded_message_Inl [OF this] assms
    show "given_crc code \<noteq> crc16_bytes (decoded_bytes code)" by auto
  next
    assume "given_crc code \<noteq> crc16_bytes (decoded_bytes code)"
    with verify_crc_cases [OF len] obtain g c where
      "verify_crc code = Inl (ChecksumMismatch g c)"
      by (auto simp: calc_crc_eq)
    then have "decode enc s = Inl (ChecksumMismatch g c)"
      by (simp add: decode_def pm)
    then show "\<exists>g c. decode enc s = Inl (ChecksumMismatch g c)" by blast
  qed
  have vals: "unpack_be_H (given_crc code) = Inr g \<and>
            unpack_be_H (crc16_bytes (decoded_bytes code)) = Inr c"
    if d: "decode enc s = Inl (ChecksumMismatch g c)" for g c
  proof -
    have "padded_message s = Inl (ChecksumMismatch g c)"
      using d by (rule decode_error_from_validation) simp
    then have v: "verify_crc code = Inl (ChecksumMismatch g c)"
      using pm len pad_eq [of code] install_code_Inr [OF assms]
      by (auto split: sum.splits)
    then show ?thesis
      by (auto simp: verify_crc_def calc_crc_eq split: sum.splits if_splits
          dest: unpack_be_H_error)
  qed
  from split glen iff vals show ?thesis by blast
qed

theorem checksum_mismatch_iff_witness:
  "install_code ''83FED3407A930000'' =
     Inr [CHR 0x83, CHR 0xFE, CHR 0xD3, CHR 0x40, CHR 0x7A, CHR 0x93, CHR 0x00, CHR 0x00] \<and>
   given_crc [CHR 0x83, CHR 0xFE, CHR 0xD3, CHR 0x40, CHR 0x7A, CHR 0x93, CHR 0x00, CHR 0x00]
     = [CHR 0x00, CHR 0x00] \<and>
   crc16_bytes (decoded_bytes
     [CHR 0x83, CHR 0xFE, CHR 0xD3, CHR 0x40, CHR 0x7A, CHR 0x93, CHR 0x00, CHR 0x00])
     = [CHR 0x2B, CHR 0x70] \<and>
   (\<exists>g c. decode toy_cipher ''83FED3407A930000'' = Inl (ChecksumMismatch g c))"
proof -
  have a: "given_crc [CHR 0x83, CHR 0xFE, CHR 0xD3, CHR 0x40, CHR 0x7A, CHR 0x93, CHR 0x00, CHR 0x00]
     = [CHR 0x00, CHR 0x00]"
    by code_simp
  have b: "crc16_bytes (decoded_bytes
     [CHR 0x83, CHR 0xFE, CHR 0xD3, CHR 0x40, CHR 0x7A, CHR 0x93, CHR 0x00, CHR 0x00])
     = [CHR 0x2B, CHR 0x70]"
    by code_simp
  show ?thesis
    using checksum_mismatch_iff [OF install_code_bad_crc_example, of toy_cipher]
      install_code_bad_crc_example
    by (simp add: a b)
qed

section \<open>The table and the polynomial\<close>

text \<open>
  Claim C9. Each of the 256 entries of the CRC table is the value computed bit by bit
  from the polynomial \<open>0x8408\<close> (start with the index; eight times shift right by
  one and XOR \<open>0x8408\<close> in when the bit shifted out is 1). Hence the table-driven
  loop over any byte sequence, from any register value, returns what the bit-by-bit
  computation returns, and never fails on its table index.
\<close>

theorem crc_table_is_bitwise:
  "length crc_table = 256 \<and>
   (\<forall>i < 256. crc_table ! i = (crc_bit_step ^^ 8) (int i)) \<and>
   crc_loop crc xs = Inr (foldl (\<lambda>c x. (crc_bit_step ^^ 8) (c XOR of_char x)) crc xs)"
proof -
  have "crc_step = crc_bitwise_update"
    by (simp add: fun_eq_iff crc_step_bitwise)
  then have "crc_loop crc xs = Inr (foldl crc_bitwise_update crc xs)"
    by (simp add: crc_loop_foldl)
  moreover have "crc_bitwise_update = (\<lambda>c x. (crc_bit_step ^^ 8) (c XOR of_char x))"
    by (simp add: fun_eq_iff crc_bitwise_update_def)
  ultimately show ?thesis
    using crc_table_nth by (simp add: crc_table_length crc_table_entry_def)
qed

theorem crc_table_is_bitwise_witness:
  "crc_table ! 1 = (crc_bit_step ^^ 8) 1 \<and> (crc_bit_step ^^ 8) 1 = 4489 \<and>
   crc_loop 0xFFFF [CHR 0x83, CHR 0xFE] =
     Inr (foldl (\<lambda>c x. (crc_bit_step ^^ 8) (c XOR of_char x)) 0xFFFF [CHR 0x83, CHR 0xFE]) \<and>
   crc_loop 0xFFFF [CHR 0x83, CHR 0xFE] = Inr 18669"
proof -
  have a: "(crc_bit_step ^^ 8) 1 = 4489"
    by (simp add: crc_bit_step_def eval_nat_numeral)
  have b: "crc_loop 0xFFFF [CHR 0x83, CHR 0xFE] = Inr 18669"
    by code_simp
  show ?thesis
    using crc_table_is_bitwise [of "0xFFFF" "[CHR 0x83, CHR 0xFE]"] a b by simp
qed

lemma pad_fields:
  assumes "length code \<in> {8, 10, 14, 18}"
  shows "pad code = Inr (code @ [CHR 0x80]
           @ replicate (nat ((- (int (length code) + 3)) mod 16)) (CHR 0x00)
           @ [CHR 0x00, char_of (8 * int (length code))])"
    and "pack_be_H (8 * (int (length (decoded_bytes code)) + 2)) =
           Inr [CHR 0x00, char_of (8 * int (length code))]"
    and "unpack_be_H [CHR 0x00, char_of (8 * int (length code))] =
           Inr (8 * (int (length (decoded_bytes code)) + 2))"
    and "length (decoded_bytes code) \<in> {6, 8, 12, 16}"
proof -
  have lt: "length code < 8192" using assms by auto
  have hi: "int (length code) * 8 div 256 = 0" and lo: "int (length code) * 8 mod 256 = 8 * int (length code)"
    using assms by auto
  have z: "char_of (0 :: int) = CHR 0x00" by code_simp
  show "pad code = Inr (code @ [CHR 0x80]
           @ replicate (nat ((- (int (length code) + 3)) mod 16)) (CHR 0x00)
           @ [CHR 0x00, char_of (8 * int (length code))])"
    using pad_eq [OF lt] by (simp add: hi lo z)
  show d: "length (decoded_bytes code) \<in> {6, 8, 12, 16}"
    using assms by (auto simp: decoded_bytes_def)
  have e: "8 * (int (length (decoded_bytes code)) + 2) = 8 * int (length code)"
    using assms by (auto simp: decoded_bytes_def)
  show "pack_be_H (8 * (int (length (decoded_bytes code)) + 2)) =
           Inr [CHR 0x00, char_of (8 * int (length code))]"
    unfolding e using assms z by (auto simp: pack_be_H_def)
  show "unpack_be_H [CHR 0x00, char_of (8 * int (length code))] =
           Inr (8 * (int (length (decoded_bytes code)) + 2))"
    unfolding e using assms by (auto simp: unpack_be_H_def)
qed

section \<open>What is hashed\<close>

text \<open>
  Claim C1, as amended. For every accepted installation code the padded message is
  built from all decoded bytes, the two trailing checksum bytes included: the bytes in
  front of the checksum (6, 8, 12 or 16 of them), the two checksum bytes, a \<open>0x80\<close>
  byte, zero bytes, and a 2-byte big-endian field equal to 8 times (number of bytes in
  front of the checksum + 2), that is 64, 80, 112 or 144.

  As stated, the claim has the padding start right after the bytes in front of the
  checksum, with a length field of 48, 64, 96 or 128. It fails at the code
  \<open>83FED3407A932B70\<close>: the padded message carries the checksum bytes \<open>2B 70\<close> in
  front of \<open>0x80\<close> and ends in the field 64, where the claim's construction has
  \<open>0x80\<close> as seventh byte and ends in 48.
\<close>

theorem padded_message_covers_checksum:
  assumes "padded_message s = Inr msg"
  shows "\<exists>code. install_code s = Inr code \<and>
           length (decoded_bytes code) \<in> {6, 8, 12, 16} \<and> length (given_crc code) = 2 \<and>
           msg = decoded_bytes code @ given_crc code @ [CHR 0x80]
                 @ replicate (nat ((- (int (length code) + 3)) mod 16)) (CHR 0x00)
                 @ [CHR 0x00, char_of (8 * (int (length (decoded_bytes code)) + 2))] \<and>
           unpack_be_H (drop (length msg - 2) msg) = Inr (8 * (int (length (decoded_bytes code)) + 2)) \<and>
           8 * (int (length (decoded_bytes code)) + 2) \<in> {64, 80, 112, 144}"
proof -
  obtain code where code: "install_code s = Inr code" "pad code = Inr msg"
    using padded_message_Inr [OF assms] by blast
  have len: "length code \<in> {8, 10, 14, 18}"
    using install_code_Inr [OF code(1)] by simp
  have split: "decoded_bytes code @ given_crc code = code"
    by (simp add: decoded_bytes_def given_crc_def)
  have e: "8 * (int (length (decoded_bytes code)) + 2) = 8 * int (length code)"
    using len by (auto simp: decoded_bytes_def)
  have msg: "msg = code @ [CHR 0x80]
                 @ replicate (nat ((- (int (length code) + 3)) mod 16)) (CHR 0x00)
                 @ [CHR 0x00, char_of (8 * int (length code))]"
    using pad_fields(1) [OF len] code(2) by simp
  then have "drop (length msg - 2) msg = [CHR 0x00, char_of (8 * int (length code))]"
    by simp
  then have "unpack_be_H (drop (length msg - 2) msg) = Inr (8 * (int (length (decoded_bytes code)) + 2))"
    using pad_fields(3) [OF len] by simp
  moreover have "msg = decoded_bytes code @ given_crc code @ [CHR 0x80]
                 @ replicate (nat ((- (int (length code) + 3)) mod 16)) (CHR 0x00)
                 @ [CHR 0x00, char_of (8 * (int (length (decoded_bytes code)) + 2))]"
    using msg split unfolding e by (metis append_assoc)
  moreover have "length (given_crc code) = 2"
    using len by (intro given_crc_length) auto
  moreover have "8 * (int (length (decoded_bytes code)) + 2) \<in> {64, 80, 112, 144}"
    unfolding e using len by auto
  ultimately show ?thesis
    using code(1) pad_fields(4) [OF len] by blast
qed

theorem padded_message_covers_checksum_witness:
  "padded_message ''83FED3407A932B70'' =
     Inr [CHR 0x83, CHR 0xFE, CHR 0xD3, CHR 0x40, CHR 0x7A, CHR 0x93, CHR 0x2B, CHR 0x70,
          CHR 0x80, CHR 0x00, CHR 0x00, CHR 0x00, CHR 0x00, CHR 0x00, CHR 0x00, CHR 0x40] \<and>
   (\<exists>code. install_code ''83FED3407A932B70'' = Inr code \<and> length (given_crc code) = 2 \<and>
      unpack_be_H [CHR 0x00, CHR 0x40] = Inr (8 * (int (length (decoded_bytes code)) + 2)))"
  using padded_message_covers_checksum [OF padded_message_example] padded_message_example
  by auto

theorem padded_message_not_spec_padding:
  "install_code ''83FED3407A932B70'' =
     Inr [CHR 0x83, CHR 0xFE, CHR 0xD3, CHR 0x40, CHR 0x7A, CHR 0x93, CHR 0x2B, CHR 0x70] \<and>
   padded_message ''83FED3407A932B70'' =
     Inr [CHR 0x83, CHR 0xFE, CHR 0xD3, CHR 0x40, CHR 0x7A, CHR 0x93, CHR 0x2B, CHR 0x70,
          CHR 0x80, CHR 0x00, CHR 0x00, CHR 0x00, CHR 0x00, CHR 0x00, CHR 0x00, CHR 0x40] \<and>
   spec_padded_message (decoded_bytes
       [CHR 0x83, CHR 0xFE, CHR 0xD3, CHR 0x40, CHR 0x7A, CHR 0x93, CHR 0x2B, CHR 0x70]) =
     [CHR 0x83, CHR 0xFE, CHR 0xD3, CHR 0x40, CHR 0x7A, CHR 0x93, CHR 0x80, CHR 0x00,
      CHR 0x00, CHR 0x00, CHR 0x00, CHR 0x00, CHR 0x00, CHR 0x00, CHR 0x00, CHR 0x30] \<and>
   [CHR 0x83, CHR 0xFE, CHR 0xD3, CHR 0x40, CHR 0x7A, CHR 0x93, CHR 0x2B, CHR 0x70,
    CHR 0x80, CHR 0x00, CHR 0x00, CHR 0x00, CHR 0x00, CHR 0x00, CHR 0x00, CHR 0x40] \<noteq>
     [CHR 0x83, CHR 0xFE, CHR 0xD3, CHR 0x40, CHR 0x7A, CHR 0x93, CHR 0x80, CHR 0x00,
      CHR 0x00, CHR 0x00, CHR 0x00, CHR 0x00, CHR 0x00, CHR 0x00, CHR 0x00, CHR 0x30] \<and>
   unpack_be_H [CHR 0x00, CHR 0x40] = Inr 64"
proof -
  have "spec_padded_message (decoded_bytes
       [CHR 0x83, CHR 0xFE, CHR 0xD3, CHR 0x40, CHR 0x7A, CHR 0x93, CHR 0x2B, CHR 0x70]) =
     [CHR 0x83, CHR 0xFE, CHR 0xD3, CHR 0x40, CHR 0x7A, CHR 0x93, CHR 0x80, CHR 0x00,
      CHR 0x00, CHR 0x00, CHR 0x00, CHR 0x00, CHR 0x00, CHR 0x00, CHR 0x00, CHR 0x30]"
    by code_simp
  moreover have "unpack_be_H [CHR 0x00, CHR 0x40] = Inr 64"
    by (simp add: unpack_be_H_def)
  ultimately show ?thesis
    using install_code_example padded_message_example by simp
qed

text \<open>
  Claim C2. In \<open>decode\<close> the byte string that is padded and compressed is the full
  decoded hex digest, checksum bytes included: the \<open>0x80\<close> byte follows the checksum
  bytes, the 2-byte big-endian length field is 8 times (secret length + 2), and the
  returned key is the result of the compression loop on secret, checksum and padding.
\<close>

theorem decode_hashes_secret_and_checksum:
  assumes "decode enc s = Inr key"
  shows "\<exists>code k len. a2b_hex (hex_string s) = Inr code \<and>
           code = decoded_bytes code @ given_crc code \<and> length (given_crc code) = 2 \<and>
           pack_be_H (8 * (int (length (decoded_bytes code)) + 2)) = Inr len \<and>
           hash_loop enc (decoded_bytes code @ given_crc code @ [CHR 0x80] @ replicate k (CHR 0x00) @ len)
             0 (replicate SECURITY_BLOCK_SIZE (CHR 0x00)) = Inr key"
proof -
  from assms obtain msg where msg: "padded_message s = Inr msg"
      and h: "hash_loop enc msg 0 (replicate SECURITY_BLOCK_SIZE (CHR 0x00)) = Inr key"
    by (auto simp: decode_def split: sum.splits)
  obtain code where code: "install_code s = Inr code" "pad code = Inr msg"
    using padded_message_Inr [OF msg] by blast
  have len: "length code \<in> {8, 10, 14, 18}" and hex: "a2b_hex (hex_string s) = Inr code"
    using install_code_Inr [OF code(1)] by simp_all
  have split: "code = decoded_bytes code @ given_crc code"
    by (simp add: decoded_bytes_def given_crc_def)
  let ?k = "nat ((- (int (length code) + 3)) mod 16)"
  let ?len = "[CHR 0x00, char_of (8 * int (length code))]"
  have "msg = code @ [CHR 0x80] @ replicate ?k (CHR 0x00) @ ?len"
    using pad_fields(1) [OF len] code(2) by simp
  then have "msg = decoded_bytes code @ given_crc code @ [CHR 0x80] @ replicate ?k (CHR 0x00) @ ?len"
    using split by (metis append_assoc)
  with h have "hash_loop enc
      (decoded_bytes code @ given_crc code @ [CHR 0x80] @ replicate ?k (CHR 0x00) @ ?len)
      0 (replicate SECURITY_BLOCK_SIZE (CHR 0x00)) = Inr key"
    by simp
  moreover have "length (given_crc code) = 2"
    using len by (intro given_crc_length) auto
  ultimately show ?thesis
    using hex split pad_fields(2) [OF len] by blast
qed

theorem decode_hashes_secret_and_checksum_witness:
  "decode toy_cipher ''83FED3407A932B70'' =
     Inr [CHR 0xC3, CHR 0xFE, CHR 0xD3, CHR 0x40, CHR 0x7A, CHR 0x93, CHR 0x2B, CHR 0xF0,
          CHR 0xF0, CHR 0x2B, CHR 0x93, CHR 0x7A, CHR 0x40, CHR 0xD3, CHR 0xFE, CHR 0xC3] \<and>
   (\<exists>code k len. a2b_hex (hex_string ''83FED3407A932B70'') = Inr code \<and>
      length (given_crc code) = 2 \<and>
      hash_loop toy_cipher
        (decoded_bytes code @ given_crc code @ [CHR 0x80] @ replicate k (CHR 0x00) @ len)
        0 (replicate SECURITY_BLOCK_SIZE (CHR 0x00)) =
      Inr [CHR 0xC3, CHR 0xFE, CHR 0xD3, CHR 0x40, CHR 0x7A, CHR 0x93, CHR 0x2B, CHR 0xF0,
          CHR 0xF0, CHR 0x2B, CHR 0x93, CHR 0x7A, CHR 0x40, CHR 0xD3, CHR 0xFE, CHR 0xC3])"
  using decode_hashes_secret_and_checksum [OF decode_example] decode_example
  by blast

end
